theory Spec2Isabelle
  imports Main "HOL-Library.Signed_Division"
begin

section \<open>The status tally of logStatusCounts\<close>

text \<open>
  \<^verbatim>\<open>statusCounts := make(map[int]int); total := 0\<close>: a Go map from status code to a
  count, and a running total. Both counters only ever grow by one per received value,
  starting from zero, so they are modelled as naturals (a 64-bit \<^verbatim>\<open>int\<close> would need
  \<open>2^63\<close> receives in one pass to wrap). Status codes are Go \<^verbatim>\<open>int\<close>s, modelled as
  \<open>int\<close>; no arithmetic is done on them.
\<close>

record tally =
  statusCounts :: "int \<rightharpoonup> nat"
  total :: nat

definition empty_tally :: tally where
  "empty_tally = \<lparr>statusCounts = Map.empty, total = 0\<rparr>"

text \<open>
  \<^verbatim>\<open>statusCounts[statusCode]++; total++\<close>. Reading a missing key of a Go map gives the
  zero value.
\<close>

definition count_status :: "int \<Rightarrow> tally \<Rightarrow> tally" where
  "count_status c t =
     \<lparr>statusCounts = (statusCounts t)(c \<mapsto> (case statusCounts t c of None \<Rightarrow> 0 | Some k \<Rightarrow> k) + 1),
      total = total t + 1\<rparr>"

text \<open>The sum, over the keys present in the map, of their counts: what the summary prints
  line by line (\<^verbatim>\<open>for code, count := range statusCounts\<close>).\<close>

definition bucket_sum :: "(int \<rightharpoonup> nat) \<Rightarrow> nat" where
  "bucket_sum m = (\<Sum>c\<in>dom m. (case m c of None \<Rightarrow> 0 | Some k \<Rightarrow> k))"

section \<open>The result channel\<close>

text \<open>
  \<^verbatim>\<open>statusChan := make(chan int, 100)\<close>: a buffered channel, first in first out, with
  a closed flag.
\<close>

record channel =
  buf :: "int list"
  closed :: bool

definition chan_cap :: nat where
  "chan_cap = 100"

definition new_chan :: channel where
  "new_chan = \<lparr>buf = [], closed = False\<rparr>"

text \<open>
  The \<^verbatim>\<open>select\<close> of the drain loop:
  \<^verbatim>\<open>
  select {
  case statusCode, ok := <-statusChan:
      if !ok { break }
      statusCounts[statusCode]++
      total++
  default:
      break
  }
  \<close>
  A buffered value is received with \<^verbatim>\<open>ok = true\<close>, also from a closed channel; a closed
  and empty channel gives \<^verbatim>\<open>ok = false\<close> at once; an open and empty channel takes the
  \<^verbatim>\<open>default\<close> branch. A \<^verbatim>\<open>break\<close> inside \<^verbatim>\<open>select\<close> leaves the \<^verbatim>\<open>select\<close> only.
\<close>

definition recv_select :: "channel \<Rightarrow> tally \<Rightarrow> channel \<times> tally" where
  "recv_select ch t =
     (case buf ch of
        c # rest \<Rightarrow> (ch\<lparr>buf := rest\<rparr>, count_status c t)
      | [] \<Rightarrow> (if closed ch then (ch, t) else (ch, t)))"

text \<open>
  The loop of logStatusCounts when no other goroutine touches the channel during the
  pass: after each \<^verbatim>\<open>select\<close>, \<^verbatim>\<open>if len(statusChan) == 0 { break }\<close>. The function
  returns the channel left behind and the tally that the summary prints.
\<close>

function drain_loop :: "channel \<Rightarrow> tally \<Rightarrow> channel \<times> tally" where
  "drain_loop ch t =
     (case recv_select ch t of
        (ch', t') \<Rightarrow> if length (buf ch') = 0 then (ch', t') else drain_loop ch' t')"
  by pat_completeness auto
termination
  by (relation "measure (\<lambda>(ch, t). length (buf ch))")
     (auto simp: recv_select_def split: list.splits if_splits)

definition logStatusCounts :: "channel \<Rightarrow> channel \<times> tally" where
  "logStatusCounts ch = drain_loop ch empty_tally"

section \<open>sendRequest\<close>

text \<open>
  The libraries (compress/gzip, net/http, the HTTP/2 and HTTP/3 transports) are not part
  of the repository: they are parameters of the model. \<open>gzip_write\<close> is the compressed
  stream left in the buffer by \<^verbatim>\<open>Write\<close> and \<^verbatim>\<open>Close\<close> (or the error of \<^verbatim>\<open>Write\<close>),
  \<open>new_request_err\<close> the error of \<^verbatim>\<open>http.NewRequest\<close> for a method and a URL text
  (an invalid method, a URL that does not parse), \<open>client_do\<close> the answer of the server
  through a transport, \<open>read_all\<close> the error of reading the response body.
\<close>

datatype transport = HTTP3_RoundTripper | HTTP2_InsecureSkipVerify | DefaultClient

record url =
  scheme :: string
  url_string :: string

record request =
  req_method :: string
  req_url :: string
  req_body :: string
  req_header :: "string \<rightharpoonup> string"

record response =
  resp_status :: int
  resp_body :: string

datatype req_error =
    GzipFailed string
  | CreateFailed string
  | RequestFailed string
  | ReadFailed string

record net_env =
  gzip_write :: "string \<Rightarrow> string + string"
  new_request_err :: "string \<Rightarrow> string \<Rightarrow> string option"
  client_do :: "transport \<Rightarrow> request \<Rightarrow> string + response"
  read_all :: "response \<Rightarrow> string option"

definition payload :: string where
  "payload = ''This is a stress test payload''"

text \<open>\<^verbatim>\<open>switch targetURL.Scheme\<close>.\<close>

definition select_client :: "string \<Rightarrow> transport" where
  "select_client sch =
     (if sch = ''https'' then HTTP3_RoundTripper
      else if sch = ''h2'' then HTTP2_InsecureSkipVerify
      else DefaultClient)"

text \<open>
  \<^verbatim>\<open>http.NewRequest\<close> replaces the empty method by GET, before it checks the method and
  builds the request; any other method is stored as given.
\<close>

definition request_method :: "string \<Rightarrow> string" where
  "request_method method = (if method = [] then ''GET'' else method)"

text \<open>
  sendRequest returns the status code or the error, and, as its effect, the request it
  handed to \<^verbatim>\<open>client.Do\<close> with the transport it chose (\<open>None\<close> when it returned before
  sending).
\<close>

definition sendRequest ::
  "net_env \<Rightarrow> url \<Rightarrow> string \<Rightarrow> (req_error + int) \<times> (transport \<times> request) option" where
  "sendRequest env targetURL method =
     (case gzip_write env payload of
        Inl e \<Rightarrow> (Inl (GzipFailed e), None)
      | Inr requestBody \<Rightarrow>
          (case new_request_err env (request_method method) (url_string targetURL) of
             Some e \<Rightarrow> (Inl (CreateFailed e), None)
           | None \<Rightarrow>
               let req0 = \<lparr>req_method = request_method method, req_url = url_string targetURL,
                           req_body = requestBody, req_header = Map.empty\<rparr>;
                   req1 = req0\<lparr>req_header := (req_header req0)(''Content-Encoding'' \<mapsto> ''gzip'')\<rparr>;
                   req = req1\<lparr>req_header := (req_header req1)(''Content-Type'' \<mapsto> ''application/json'')\<rparr>;
                   client = select_client (scheme targetURL)
               in (case client_do env client req of
                     Inl e \<Rightarrow> (Inl (RequestFailed e), Some (client, req))
                   | Inr resp \<Rightarrow>
                       (case read_all env resp of
                          Some e \<Rightarrow> (Inl (ReadFailed e), Some (client, req))
                        | None \<Rightarrow> (Inr (resp_status resp), Some (client, req))))))"

section \<open>The goroutines of main as a transition system\<close>

text \<open>
  main starts one aggregator goroutine and \<^verbatim>\<open>concurrent\<close> worker goroutines, which share
  the context, the rate limiter and the channel. Each goroutine is a small state machine
  whose states are its blocking and observation points; an event is one atomic step of
  one goroutine, or the deadline timer firing. Any interleaving of enabled events is a
  run.

  A worker: at its \<^verbatim>\<open>select\<close> (\<open>WSelect\<close>); inside sendRequest (\<open>WInFlight\<close>); at
  \<^verbatim>\<open>statusChan <- statusCode\<close> with the code to send (\<open>WSend\<close>); returned, after
  \<^verbatim>\<open>wg.Done()\<close> (\<open>WDone\<close>).
\<close>

datatype wstate = WSelect | WInFlight | WSend int | WDone

text \<open>
  The aggregator: at its \<^verbatim>\<open>select\<close> on the context and the ticker (\<open>AIdle\<close>); inside
  logStatusCounts before the \<^verbatim>\<open>select\<close> of the drain loop (\<open>ARecv\<close>) and before its
  \<^verbatim>\<open>len(statusChan) == 0\<close> test (\<open>ALen\<close>), with the tally so far; returned (\<open>AExited\<close>).
\<close>

datatype astate = AIdle | ARecv tally | ALen tally | AExited

text \<open>main: in \<^verbatim>\<open>wg.Wait()\<close>; after \<^verbatim>\<open>close(statusChan)\<close>; returned (the process is over).\<close>

datatype mstate = MWait | MClosed | MExited

record state =
  ctx_done :: bool
  ticking :: bool
  statusChan :: channel
  workers :: "wstate list"
  agg :: astate
  mainst :: mstate
  reports :: "tally list"
  errlog :: "req_error list"
  panicked :: bool

datatype event =
    Deadline
  | Permit nat
  | Result nat "req_error + int"
  | Push nat
  | Cancel nat
  | Tick
  | AggCancel
  | AggRecv
  | AggLen
  | MainClose
  | MainExit

text \<open>Goroutines run while main has not returned and no goroutine has panicked.\<close>

definition alive :: "state \<Rightarrow> bool" where
  "alive s = (mainst s \<noteq> MExited \<and> \<not> panicked s)"

definition all_done :: "wstate list \<Rightarrow> bool" where
  "all_done ws = (filter (\<lambda>w. w \<noteq> WDone) ws = [])"

text \<open>
  \<open>step e s\<close> is the state after event \<open>e\<close>, or \<open>None\<close> when \<open>e\<close> cannot happen in \<open>s\<close>
  (the goroutine is elsewhere, or blocked).
  \<^item> \<open>Deadline\<close>: the timer of \<^verbatim>\<open>context.WithTimeout\<close> closes \<^verbatim>\<open>ctx.Done()\<close>, once.
  \<^item> \<open>Permit i\<close>: worker \<open>i\<close> receives from \<^verbatim>\<open>rateLimiter\<close> (a nil channel never
    delivers) and calls sendRequest. When both cases of a \<^verbatim>\<open>select\<close> are ready Go picks
    either, so the permit does not require the context to be live.
  \<^item> \<open>Result i r\<close>: sendRequest returns \<open>r\<close>; an error is logged and the worker loops,
    a status code is to be sent on the channel.
  \<^item> \<open>Push i\<close>: \<^verbatim>\<open>statusChan <- statusCode\<close>: panics on a closed channel, blocks on a
    full one.
  \<^item> \<open>Cancel i\<close>: worker \<open>i\<close> takes \<^verbatim>\<open>case <-ctx.Done(): return\<close>.
  \<^item> \<open>Tick\<close>: the aggregator takes \<^verbatim>\<open>case <-ticker.C\<close> and enters logStatusCounts.
  \<^item> \<open>AggCancel\<close>: the aggregator takes \<^verbatim>\<open>case <-ctx.Done(): return\<close>.
  \<^item> \<open>AggRecv\<close>, \<open>AggLen\<close>: the \<^verbatim>\<open>select\<close> and the length test of the drain loop;
    when the length is zero the summary is printed and logStatusCounts returns.
  \<^item> \<open>MainClose\<close>: \<^verbatim>\<open>wg.Wait()\<close> returns (every worker has called \<^verbatim>\<open>wg.Done()\<close>) and
    main closes the channel.
  \<^item> \<open>MainExit\<close>: main prints the completion line and returns.
\<close>

fun step :: "event \<Rightarrow> state \<Rightarrow> state option" where
  "step Deadline s =
     (if alive s \<and> \<not> ctx_done s then Some (s\<lparr>ctx_done := True\<rparr>) else None)"
| "step (Permit i) s =
     (if alive s \<and> i < length (workers s) \<and> workers s ! i = WSelect \<and> ticking s
      then Some (s\<lparr>workers := (workers s)[i := WInFlight]\<rparr>) else None)"
| "step (Result i r) s =
     (if alive s \<and> i < length (workers s) \<and> workers s ! i = WInFlight
      then (case r of
              Inl e \<Rightarrow> Some (s\<lparr>errlog := errlog s @ [e], workers := (workers s)[i := WSelect]\<rparr>)
            | Inr c \<Rightarrow> Some (s\<lparr>workers := (workers s)[i := WSend c]\<rparr>))
      else None)"
| "step (Push i) s =
     (if alive s \<and> i < length (workers s)
      then (case workers s ! i of
              WSend c \<Rightarrow>
                if closed (statusChan s) then Some (s\<lparr>panicked := True\<rparr>)
                else if length (buf (statusChan s)) < chan_cap
                then Some (s\<lparr>statusChan := (statusChan s)\<lparr>buf := buf (statusChan s) @ [c]\<rparr>,
                             workers := (workers s)[i := WSelect]\<rparr>)
                else None
            | _ \<Rightarrow> None)
      else None)"
| "step (Cancel i) s =
     (if alive s \<and> i < length (workers s) \<and> workers s ! i = WSelect \<and> ctx_done s
      then Some (s\<lparr>workers := (workers s)[i := WDone]\<rparr>) else None)"
| "step Tick s =
     (if alive s \<and> agg s = AIdle then Some (s\<lparr>agg := ARecv empty_tally\<rparr>) else None)"
| "step AggCancel s =
     (if alive s \<and> agg s = AIdle \<and> ctx_done s then Some (s\<lparr>agg := AExited\<rparr>) else None)"
| "step AggRecv s =
     (if alive s
      then (case agg s of
              ARecv t \<Rightarrow>
                (case recv_select (statusChan s) t of
                   (ch', t') \<Rightarrow> Some (s\<lparr>statusChan := ch', agg := ALen t'\<rparr>))
            | _ \<Rightarrow> None)
      else None)"
| "step AggLen s =
     (if alive s
      then (case agg s of
              ALen t \<Rightarrow>
                if length (buf (statusChan s)) = 0
                then Some (s\<lparr>reports := reports s @ [t], agg := AIdle\<rparr>)
                else Some (s\<lparr>agg := ARecv t\<rparr>)
            | _ \<Rightarrow> None)
      else None)"
| "step MainClose s =
     (if alive s \<and> mainst s = MWait \<and> all_done (workers s)
      then Some (s\<lparr>statusChan := (statusChan s)\<lparr>closed := True\<rparr>, mainst := MClosed\<rparr>)
      else None)"
| "step MainExit s =
     (if alive s \<and> mainst s = MClosed then Some (s\<lparr>mainst := MExited\<rparr>) else None)"

fun run :: "event list \<Rightarrow> state \<Rightarrow> state option" where
  "run [] s = Some s"
| "run (e # es) s = (case step e s of None \<Rightarrow> None | Some s' \<Rightarrow> run es s')"

section \<open>The start of main\<close>

text \<open>
  The flags as parsed by the flag package: \<^verbatim>\<open>-u -m -r -c -d\<close> (the duration in
  nanoseconds). \<^verbatim>\<open>url.Parse\<close> is a parameter.
\<close>

record flags =
  urlStr :: string
  method_flag :: string
  rateLimit :: int
  concurrent :: int
  duration :: int

datatype fatal = UrlRequired | InvalidURL string | DivideByZeroPanic

text \<open>
  The state in which the goroutines start: \<open>n\<close> workers at their \<^verbatim>\<open>select\<close>, the
  aggregator at its own, main in \<^verbatim>\<open>wg.Wait()\<close>, an empty open channel. \<open>expired\<close> says that
  the context was created with a duration that is not positive, \<open>tick\<close> that
  \<^verbatim>\<open>rateLimiter\<close> is not nil.
\<close>

definition init :: "bool \<Rightarrow> bool \<Rightarrow> nat \<Rightarrow> state" where
  "init expired tick n =
     \<lparr>ctx_done = expired, ticking = tick, statusChan = new_chan,
      workers = replicate n WSelect, agg = AIdle, mainst = MWait,
      reports = [], errlog = [], panicked = False\<rparr>"

text \<open>
  main up to the start of the goroutines. \<^verbatim>\<open>time.Second / time.Duration(*rateLimit)\<close> is
  a division of 64-bit integers, truncating towards zero, which panics on a zero divisor;
  \<^verbatim>\<open>time.Tick(d)\<close> returns nil when \<^verbatim>\<open>d <= 0\<close>. The loop
  \<^verbatim>\<open>for i := 0; i < *concurrent; i++\<close> starts no worker for a count that is not positive.
\<close>

definition main_start :: "(string \<Rightarrow> string + url) \<Rightarrow> flags \<Rightarrow> fatal + state" where
  "main_start url_parse f =
     (if urlStr f = [] then Inl UrlRequired
      else (case url_parse (urlStr f) of
              Inl e \<Rightarrow> Inl (InvalidURL e)
            | Inr parsedURL \<Rightarrow>
                if rateLimit f = 0 then Inl DivideByZeroPanic
                else let d = 1000000000 sdiv rateLimit f
                     in Inr (init (duration f \<le> 0) (0 < d) (nat (concurrent f)))))"

section \<open>Observations on runs\<close>

text \<open>
  What a run has printed and pushed. \<open>reported\<close> is the sum of the totals of the printed
  summaries; \<open>pending\<close> is the total of a pass of logStatusCounts that has not printed
  yet; \<open>bucket\<close> reads one status code of a tally, a missing key counting zero.
\<close>

definition bucket :: "tally \<Rightarrow> int \<Rightarrow> nat" where
  "bucket t c = (case statusCounts t c of None \<Rightarrow> 0 | Some k \<Rightarrow> k)"

definition reported :: "state \<Rightarrow> nat" where
  "reported s = sum_list (map total (reports s))"

definition reported_bucket :: "state \<Rightarrow> int \<Rightarrow> nat" where
  "reported_bucket s c = sum_list (map (\<lambda>r. bucket r c) (reports s))"

fun pending :: "astate \<Rightarrow> nat" where
  "pending (ARecv t) = total t"
| "pending (ALen t) = total t"
| "pending AIdle = 0"
| "pending AExited = 0"

fun pending_bucket :: "astate \<Rightarrow> int \<Rightarrow> nat" where
  "pending_bucket (ARecv t) c = bucket t c"
| "pending_bucket (ALen t) c = bucket t c"
| "pending_bucket AIdle c = 0"
| "pending_bucket AExited c = 0"

definition accounted :: "state \<Rightarrow> nat" where
  "accounted s = reported s + pending (agg s) + length (buf (statusChan s))"

definition accounted_bucket :: "state \<Rightarrow> int \<Rightarrow> nat" where
  "accounted_bucket s c =
     reported_bucket s c + pending_bucket (agg s) c + count_list (buf (statusChan s)) c"

text \<open>The events of a trace that are pushes, requests answered with a status code, and
  requests that failed.\<close>

fun is_push :: "event \<Rightarrow> bool" where
  "is_push (Push i) = True"
| "is_push _ = False"

fun is_code :: "event \<Rightarrow> bool" where
  "is_code (Result i (Inr c)) = True"
| "is_code _ = False"

fun is_error :: "event \<Rightarrow> bool" where
  "is_error (Result i (Inl e)) = True"
| "is_error _ = False"

definition pushes :: "event list \<Rightarrow> nat" where
  "pushes tr = length (filter is_push tr)"

definition codes :: "event list \<Rightarrow> nat" where
  "codes tr = length (filter is_code tr)"

definition errors :: "event list \<Rightarrow> nat" where
  "errors tr = length (filter is_error tr)"

text \<open>The status codes pushed along a trace from a state, in order.\<close>

fun pushed_code :: "event \<Rightarrow> state \<Rightarrow> int list" where
  "pushed_code (Push i) s = (case workers s ! i of WSend c \<Rightarrow> [c] | _ \<Rightarrow> [])"
| "pushed_code _ s = []"

fun pushed :: "event list \<Rightarrow> state \<Rightarrow> int list" where
  "pushed [] s = []"
| "pushed (e # es) s =
     (case step e s of None \<Rightarrow> [] | Some s' \<Rightarrow> pushed_code e s @ pushed es s')"

text \<open>The workers that hold a status code they have not sent yet.\<close>

fun is_send :: "wstate \<Rightarrow> bool" where
  "is_send (WSend c) = True"
| "is_send _ = False"

definition sending :: "wstate list \<Rightarrow> nat" where
  "sending ws = length (filter is_send ws)"

text \<open>An uninterrupted pass of the drain loop with \<open>k\<close> iterations.\<close>

definition agg_pass :: "nat \<Rightarrow> event list" where
  "agg_pass k = concat (replicate k [AggRecv, AggLen])"

section \<open>Invariants\<close>

definition tally_ok :: "tally \<Rightarrow> bool" where
  "tally_ok t = (finite (dom (statusCounts t)) \<and> total t = bucket_sum (statusCounts t))"

fun agg_ok :: "astate \<Rightarrow> bool" where
  "agg_ok (ARecv t) = tally_ok t"
| "agg_ok (ALen t) = tally_ok t"
| "agg_ok AIdle = True"
| "agg_ok AExited = True"

definition tallies_ok :: "state \<Rightarrow> bool" where
  "tallies_ok s = (list_all tally_ok (reports s) \<and> agg_ok (agg s))"

definition safe :: "state \<Rightarrow> bool" where
  "safe s = (\<not> panicked s \<and> (closed (statusChan s) \<longrightarrow> all_done (workers s))
             \<and> (mainst s = MWait \<longrightarrow> \<not> closed (statusChan s)))"

definition exits_after_deadline :: "state \<Rightarrow> bool" where
  "exits_after_deadline s =
     ((WDone \<in> set (workers s) \<longrightarrow> ctx_done s)
      \<and> (mainst s \<noteq> MWait \<longrightarrow> all_done (workers s)))"

section \<open>Concrete runs\<close>

text \<open>One worker; a 200 is pushed and reported by a tick, a 503 is pushed after that tick,
  then the deadline passes and the program shuts down.\<close>

definition two_window_run :: "event list" where
  "two_window_run =
     [Permit 0, Result 0 (Inr 200), Push 0, Tick, AggRecv, AggLen,
      Permit 0, Result 0 (Inr 503), Push 0, Deadline, AggCancel, Cancel 0,
      MainClose, MainExit]"

text \<open>One worker pushes a 200 before the first tick; the deadline passes and the program
  shuts down.\<close>

definition shutdown_run :: "event list" where
  "shutdown_run =
     [Permit 0, Result 0 (Inr 200), Push 0, Deadline, AggCancel, Cancel 0, MainClose, MainExit]"

text \<open>The aggregator at its \<^verbatim>\<open>select\<close> with the context done and a 200 in the channel.\<close>

text \<open>As \<open>shutdown_run\<close>, up to the return of the worker.\<close>

definition returned_run :: "event list" where
  "returned_run = [Permit 0, Result 0 (Inr 200), Push 0, Deadline, AggCancel, Cancel 0]"

definition cancel_pending :: state where
  "cancel_pending =
     (init False True 1)\<lparr>ctx_done := True, statusChan := \<lparr>buf = [200], closed = False\<rparr>\<rparr>"

definition refused_run :: "event list" where
  "refused_run = [Permit 0, Result 0 (Inl (RequestFailed ''connection refused''))]"

definition code_run :: "event list" where
  "code_run = [Permit 0, Result 0 (Inr 200)]"

definition failing_run :: "event list" where
  "failing_run =
     [Permit 0, Result 0 (Inl (RequestFailed ''connection refused'')),
      Permit 0, Result 0 (Inl (RequestFailed ''timeout'')), Permit 0]"

definition mixed_run :: "event list" where
  "mixed_run =
     [Permit 0, Result 0 (Inr 200), Push 0, Permit 0, Result 0 (Inr 503), Push 0,
      Permit 0, Result 0 (Inr 200), Push 0, Tick, AggRecv, AggLen, AggRecv, AggLen,
      AggRecv, AggLen]"

text \<open>A library environment in which every request is answered 200.\<close>

definition echo_env :: net_env where
  "echo_env =
     \<lparr>gzip_write = (\<lambda>p. Inr (''gz:'' @ p)),
      new_request_err = (\<lambda>m u. None),
      client_do = (\<lambda>t r. Inr \<lparr>resp_status = 200, resp_body = []\<rparr>),
      read_all = (\<lambda>r. None)\<rparr>"

text \<open>A library environment in which the HTTP/2 transport refuses the URL's scheme and
  the other clients are answered 200.\<close>

definition h2_env :: net_env where
  "h2_env =
     echo_env\<lparr>client_do :=
       (\<lambda>t r. if t = HTTP2_InsecureSkipVerify then Inl ''http2: unsupported scheme''
              else Inr \<lparr>resp_status = 200, resp_body = []\<rparr>)\<rparr>"

text \<open>A library environment in which every connection is refused.\<close>

definition refusing_env :: net_env where
  "refusing_env = echo_env\<lparr>client_do := (\<lambda>t r. Inl ''connection refused'')\<rparr>"

definition parse_ok :: "string \<Rightarrow> string + url" where
  "parse_ok u = Inr \<lparr>scheme = ''http'', url_string = u\<rparr>"

definition negative_rate_flags :: flags where
  "negative_rate_flags =
     \<lparr>urlStr = ''http://localhost:8080/'', method_flag = ''GET'', rateLimit = - 1,
      concurrent = 5, duration = 30000000000\<rparr>"

definition zero_rate_flags :: flags where
  "zero_rate_flags =
     \<lparr>urlStr = ''http://localhost:8080/'', method_flag = ''GET'', rateLimit = 0,
      concurrent = 5, duration = 30000000000\<rparr>"

text \<open>
  One worker, every request answered 200 at once, no tick before the deadline
  (\<^verbatim>\<open>-r 1000 -c 1 -d 500ms\<close>): \<open>fill k\<close> is \<open>k\<close> rounds of permit, answer and push,
  \<open>filled k\<close> the state after them. In \<open>hang_run\<close> the worker has its 101st status code in
  hand when the deadline passes and the aggregator returns; \<open>hung\<close> is the state reached.
\<close>

definition ok_cycle :: "event list" where
  "ok_cycle = [Permit 0, Result 0 (Inr 200), Push 0]"

definition fill :: "nat \<Rightarrow> event list" where
  "fill k = concat (replicate k ok_cycle)"

definition filled :: "nat \<Rightarrow> state" where
  "filled k = (init False True 1)\<lparr>statusChan := \<lparr>buf = replicate k 200, closed = False\<rparr>\<rparr>"

definition hang_run :: "event list" where
  "hang_run = fill 100 @ [Permit 0, Result 0 (Inr 200), Deadline, AggCancel]"

definition hung :: state where
  "hung = (filled 100)\<lparr>ctx_done := True, workers := [WSend 200], agg := AExited\<rparr>"

lemmas eval_defs = init_def new_chan_def alive_def all_done_def chan_cap_def recv_select_def
  count_status_def empty_tally_def

section \<open>Lemmas\<close>

subsection \<open>Tallies\<close>

text \<open>Counting one status code adds one to the sum of the buckets, whether the key is new
  or present.\<close>

lemma bucket_sum_fresh:
  assumes "finite (dom m)" and "m c = None"
  shows "bucket_sum (m(c \<mapsto> v)) = v + bucket_sum m"
proof -
  have nin: "c \<notin> dom m" using assms(2) by (simp add: domIff)
  have "bucket_sum (m(c \<mapsto> v)) = (\<Sum>x\<in>insert c (dom m). (case (m(c \<mapsto> v)) x of None \<Rightarrow> 0 | Some k \<Rightarrow> k))"
    by (simp add: bucket_sum_def)
  also have "\<dots> = v + (\<Sum>x\<in>dom m. (case (m(c \<mapsto> v)) x of None \<Rightarrow> 0 | Some k \<Rightarrow> k))"
    using assms(1) nin by simp
  also have "(\<Sum>x\<in>dom m. (case (m(c \<mapsto> v)) x of None \<Rightarrow> 0 | Some k \<Rightarrow> k)) = bucket_sum m"
    unfolding bucket_sum_def using nin by (intro sum.cong) auto
  finally show ?thesis .
qed

lemma bucket_sum_split:
  assumes "finite (dom m)" and "m c = Some k"
  shows "bucket_sum m = k + (\<Sum>x\<in>dom m - {c}. (case m x of None \<Rightarrow> 0 | Some j \<Rightarrow> j))"
proof -
  have cin: "c \<in> dom m" using assms(2) by (simp add: domIff)
  show ?thesis
    unfolding bucket_sum_def using assms cin by (subst sum.remove [of _ c]) auto
qed

lemma bucket_sum_present:
  assumes "finite (dom m)" and "m c = Some k"
  shows "bucket_sum (m(c \<mapsto> v)) + k = v + bucket_sum m"
proof -
  have fin: "finite (dom (m(c \<mapsto> v)))" using assms(1) by simp
  have d: "dom (m(c \<mapsto> v)) - {c} = dom m - {c}" by auto
  have "bucket_sum (m(c \<mapsto> v)) = v + (\<Sum>x\<in>dom (m(c \<mapsto> v)) - {c}. (case (m(c \<mapsto> v)) x of None \<Rightarrow> 0 | Some j \<Rightarrow> j))"
    by (rule bucket_sum_split [OF fin]) simp
  also have "(\<Sum>x\<in>dom (m(c \<mapsto> v)) - {c}. (case (m(c \<mapsto> v)) x of None \<Rightarrow> 0 | Some j \<Rightarrow> j))
      = (\<Sum>x\<in>dom m - {c}. (case m x of None \<Rightarrow> 0 | Some j \<Rightarrow> j))"
    unfolding d by (intro sum.cong) auto
  finally have e1: "bucket_sum (m(c \<mapsto> v)) = v + (\<Sum>x\<in>dom m - {c}. (case m x of None \<Rightarrow> 0 | Some j \<Rightarrow> j))" .
  from e1 bucket_sum_split [OF assms] show ?thesis by linarith
qed

lemma bucket_sum_upd:
  assumes "finite (dom m)"
  shows "bucket_sum (m(c \<mapsto> Suc (case m c of None \<Rightarrow> 0 | Some k \<Rightarrow> k))) = Suc (bucket_sum m)"
proof (cases "m c")
  case None
  then show ?thesis using bucket_sum_fresh [OF assms None, of "Suc 0"] by simp
next
  case (Some k)
  then show ?thesis using bucket_sum_present [OF assms Some, of "Suc k"] by simp
qed

lemma tally_ok_empty: "tally_ok empty_tally"
  by (simp add: tally_ok_def empty_tally_def bucket_sum_def)

lemma tally_ok_count: "tally_ok t \<Longrightarrow> tally_ok (count_status c t)"
  by (simp add: tally_ok_def count_status_def bucket_sum_upd)

lemma total_count: "total (count_status c t) = total t + 1"
  by (simp add: count_status_def)

lemma bucket_count: "bucket (count_status c' t) c = bucket t c + (if c' = c then 1 else 0)"
  by (simp add: bucket_def count_status_def)

subsection \<open>The drain loop\<close>

lemma tally_ok_recv: "tally_ok t \<Longrightarrow> recv_select ch t = (ch', t') \<Longrightarrow> tally_ok t'"
  by (auto simp: recv_select_def tally_ok_count split: list.splits)

lemma recv_select_conserve:
  "recv_select ch t = (ch', t') \<Longrightarrow>
     total t' + length (buf ch') = total t + length (buf ch) \<and> closed ch' = closed ch"
  by (auto simp: recv_select_def total_count split: list.splits)

lemma recv_select_closed: "recv_select ch t = (ch', t') \<Longrightarrow> closed ch' = closed ch"
  by (auto simp: recv_select_def split: list.splits)

lemma recv_select_length:
  "recv_select ch t = (ch', t') \<Longrightarrow> length (buf ch) = (if buf ch = [] then 0 else Suc (length (buf ch')))"
  by (auto simp: recv_select_def split: list.splits)

lemma count_list_append: "count_list (xs @ ys) c = count_list xs c + count_list ys c"
  by (induction xs) auto

lemma recv_select_bucket:
  "recv_select ch t = (ch', t') \<Longrightarrow>
     bucket t' c + count_list (buf ch') c = bucket t c + count_list (buf ch) c"
  by (auto simp: recv_select_def bucket_count split: list.splits)

lemma drain_loop_ok: "tally_ok t \<Longrightarrow> tally_ok (snd (drain_loop ch t))"
proof (induction ch t rule: drain_loop.induct)
  case (1 ch t)
  obtain ch' t' where r: "recv_select ch t = (ch', t')" by (cases "recv_select ch t")
  have ok': "tally_ok t'" using tally_ok_recv [OF "1.prems" r] .
  show ?case
  proof (cases "length (buf ch') = 0")
    case True
    then show ?thesis using r ok' by (subst drain_loop.simps) simp
  next
    case False
    then show ?thesis using r "1.IH" [OF r [symmetric] False ok'] by (subst drain_loop.simps) simp
  qed
qed

text \<open>Run alone, the loop empties the channel and counts every value it held.\<close>

lemma drain_loop_total:
  "drain_loop ch t = (ch', t') \<Longrightarrow> buf ch' = [] \<and> closed ch' = closed ch \<and> total t' = total t + length (buf ch)"
proof (induction ch t arbitrary: ch' t' rule: drain_loop.induct)
  case (1 ch t)
  obtain c1 t1 where r: "recv_select ch t = (c1, t1)" by (cases "recv_select ch t")
  note cons = recv_select_conserve [OF r]
  show ?case
  proof (cases "length (buf c1) = 0")
    case True
    then have "drain_loop ch t = (c1, t1)" using r by (subst drain_loop.simps) simp
    then show ?thesis using "1.prems" cons True by auto
  next
    case False
    then have "drain_loop ch t = drain_loop c1 t1" using r by (subst drain_loop.simps) simp
    then have "drain_loop c1 t1 = (ch', t')" using "1.prems" by simp
    from "1.IH" [OF r [symmetric] False this] show ?thesis using cons by auto
  qed
qed

lemma drain_empty: "buf ch = [] \<Longrightarrow> logStatusCounts ch = (ch, empty_tally)"
  unfolding logStatusCounts_def
  by (subst drain_loop.simps) (simp add: recv_select_def)

subsection \<open>Runs\<close>

lemma run_append:
  "run (xs @ ys) s = (case run xs s of None \<Rightarrow> None | Some s' \<Rightarrow> run ys s')"
  by (induction xs arbitrary: s) (auto split: option.splits)

lemma panicked_stuck: "panicked s \<Longrightarrow> step e s = None"
  by (cases e) (simp_all add: alive_def)

lemma panicked_run: "panicked s \<Longrightarrow> run tr s = Some s' \<Longrightarrow> panicked s'"
  by (cases tr) (auto simp: panicked_stuck)

lemma length_workers_step: "step e s = Some s' \<Longrightarrow> length (workers s') = length (workers s)"
  by (cases e) (auto split: if_splits sum.splits astate.splits wstate.splits prod.splits)

lemma length_workers_run: "run tr s = Some s' \<Longrightarrow> length (workers s') = length (workers s)"
  by (induction tr arbitrary: s) (auto split: option.splits dest: length_workers_step)

lemma ticking_step: "step e s = Some s' \<Longrightarrow> ticking s' = ticking s"
  by (cases e) (auto split: if_splits sum.splits wstate.splits astate.splits prod.splits)

lemma ticking_run: "run tr s = Some s' \<Longrightarrow> ticking s' = ticking s"
  by (induction tr arbitrary: s) (auto split: option.splits dest: ticking_step)

lemma no_permit: "\<not> ticking s \<Longrightarrow> step (Permit i) s = None"
  by simp

text \<open>An uninterrupted pass of the aggregator through the drain loop computes what
  \<open>drain_loop\<close> computes, and prints its tally.\<close>

lemma agg_pass_Suc: "agg_pass (Suc k) = AggRecv # AggLen # agg_pass k"
  by (simp add: agg_pass_def)

lemma drain_pass_refines:
  "alive s \<Longrightarrow> agg s = ARecv t \<Longrightarrow> statusChan s = ch \<Longrightarrow> drain_loop ch t = (ch', t') \<Longrightarrow>
     run (agg_pass (max 1 (length (buf ch)))) s
       = Some (s\<lparr>statusChan := ch', agg := AIdle, reports := reports s @ [t']\<rparr>)"
proof (induction ch t arbitrary: s rule: drain_loop.induct)
  case (1 ch t)
  obtain c1 t1 where r: "recv_select ch t = (c1, t1)" by (cases "recv_select ch t")
  note len = recv_select_length [OF r]
  have st: "step AggRecv s = Some (s\<lparr>statusChan := c1, agg := ALen t1\<rparr>)"
    using "1.prems" r by simp
  show ?case
  proof (cases "length (buf c1) = 0")
    case True
    then have d: "drain_loop ch t = (c1, t1)" using r by (subst drain_loop.simps) simp
    have k: "max 1 (length (buf ch)) = Suc 0" using len True by (simp split: if_splits)
    show ?thesis unfolding k agg_pass_Suc
      using st "1.prems" d True by (simp add: agg_pass_def alive_def)
  next
    case False
    then have d: "drain_loop ch t = drain_loop c1 t1" using r by (subst drain_loop.simps) simp
    let ?s1 = "s\<lparr>statusChan := c1, agg := ARecv t1\<rparr>"
    have ne: "buf ch \<noteq> []" using r False by (auto simp: recv_select_def)
    have k: "max 1 (length (buf ch)) = Suc (max 1 (length (buf c1)))"
      using len False ne by (cases "buf c1") simp_all
    have ih: "run (agg_pass (max 1 (length (buf c1)))) ?s1
       = Some (?s1\<lparr>statusChan := ch', agg := AIdle, reports := reports ?s1 @ [t']\<rparr>)"
      using "1.IH" [OF r [symmetric] False, of ?s1] "1.prems" d by (simp add: alive_def)
    show ?thesis unfolding k agg_pass_Suc
      using st "1.prems" False ih by (simp add: alive_def)
  qed
qed

subsection \<open>The channel is closed after the workers\<close>

lemma all_done_iff: "all_done ws \<longleftrightarrow> (\<forall>w\<in>set ws. w = WDone)"
  by (auto simp: all_done_def filter_empty_conv)

lemma all_done_nth: "all_done ws \<Longrightarrow> i < length ws \<Longrightarrow> ws ! i = WDone"
  by (simp add: all_done_iff)

lemma all_done_update: "all_done ws \<Longrightarrow> all_done (ws[i := WDone])"
  by (auto simp: all_done_iff dest: set_update_subset_insert [THEN subsetD])

lemma safe_step: "safe s \<Longrightarrow> step e s = Some s' \<Longrightarrow> safe s'"
proof (cases e)
  case (Push i)
  assume a: "safe s" "step e s = Some s'"
  then show ?thesis using Push
    by (auto simp: safe_def split: if_splits wstate.splits dest: all_done_nth)
next
  case (Cancel i)
  assume a: "safe s" "step e s = Some s'"
  then show ?thesis using Cancel
    by (auto simp: safe_def all_done_update split: if_splits)
next
  case AggRecv
  assume a: "safe s" "step e s = Some s'"
  then show ?thesis using AggRecv
    by (auto simp: safe_def split: if_splits astate.splits prod.splits dest: recv_select_closed)
qed (auto simp: safe_def split: if_splits sum.splits astate.splits dest: all_done_nth)

lemma safe_init: "safe (init ex tk n)"
  by (simp add: safe_def init_def new_chan_def)

lemma safe_run: "safe s \<Longrightarrow> run tr s = Some s' \<Longrightarrow> safe s'"
  by (induction tr arbitrary: s) (auto split: option.splits dest: safe_step)

lemma close_only_main:
  "step e s = Some s' \<Longrightarrow> \<not> closed (statusChan s) \<Longrightarrow> closed (statusChan s') \<Longrightarrow> e = MainClose"
  by (cases e) (auto split: if_splits sum.splits wstate.splits astate.splits prod.splits
                     dest: recv_select_closed)

lemma push_needs_send: "all_done ws \<Longrightarrow> step (Push i) (s\<lparr>workers := ws\<rparr>) = None"
  by (auto split: wstate.splits dest: all_done_nth)

subsection \<open>Workers leave after the deadline\<close>

lemma wdone_update: "WDone \<in> set (ws[i := w]) \<Longrightarrow> w \<noteq> WDone \<Longrightarrow> WDone \<in> set ws"
  using set_update_subset_insert [of ws i w] by auto

lemma ead_step: "exits_after_deadline s \<Longrightarrow> step e s = Some s' \<Longrightarrow> exits_after_deadline s'"
proof (cases e)
  case (Permit i)
  assume "exits_after_deadline s" "step e s = Some s'"
  then show ?thesis using Permit
    by (auto simp: exits_after_deadline_def split: if_splits
             dest: wdone_update all_done_nth)
next
  case (Result i r)
  assume "exits_after_deadline s" "step e s = Some s'"
  then show ?thesis using Result
    by (auto simp: exits_after_deadline_def split: if_splits sum.splits
             dest: wdone_update all_done_nth)
next
  case (Push i)
  assume "exits_after_deadline s" "step e s = Some s'"
  then show ?thesis using Push
    by (auto simp: exits_after_deadline_def split: if_splits wstate.splits
             dest: wdone_update all_done_nth)
next
  case (Cancel i)
  assume "exits_after_deadline s" "step e s = Some s'"
  then show ?thesis using Cancel
    by (auto simp: exits_after_deadline_def all_done_update split: if_splits)
qed (auto simp: exits_after_deadline_def split: if_splits astate.splits prod.splits)

lemma ead_run: "exits_after_deadline s \<Longrightarrow> run tr s = Some s' \<Longrightarrow> exits_after_deadline s'"
  by (induction tr arbitrary: s) (auto split: option.splits dest: ead_step)

lemma ead_init: "exits_after_deadline (init ex tk n)"
  by (simp add: exits_after_deadline_def init_def)

lemma done_only_deadline:
  "step e s = Some s' \<Longrightarrow> \<not> ctx_done s \<Longrightarrow> ctx_done s' \<Longrightarrow> e = Deadline"
  by (cases e) (auto split: if_splits sum.splits wstate.splits astate.splits prod.splits)

lemma sendRequest_do_failed:
  "snd (sendRequest env u m) = Some (cl, rq) \<Longrightarrow> client_do env cl rq = Inl e \<Longrightarrow>
     fst (sendRequest env u m) = Inl (RequestFailed e)"
  by (auto simp: sendRequest_def Let_def split: sum.splits option.splits)

lemma sendRequest_read_failed:
  "snd (sendRequest env u m) = Some (cl, rq) \<Longrightarrow> client_do env cl rq = Inr resp \<Longrightarrow>
     read_all env resp = Some e \<Longrightarrow> fst (sendRequest env u m) = Inl (ReadFailed e)"
  by (auto simp: sendRequest_def Let_def split: sum.splits option.splits)

subsection \<open>Every pushed value is in a summary, in a pass or in the channel\<close>

lemma accounted_step:
  "step e s = Some s' \<Longrightarrow> \<not> panicked s' \<Longrightarrow>
     accounted s' = accounted s + (if is_push e then 1 else 0)"
proof (cases e)
  case AggRecv
  assume "step e s = Some s'" "\<not> panicked s'"
  then show ?thesis using AggRecv
    by (auto simp: accounted_def reported_def split: if_splits astate.splits prod.splits
             dest: recv_select_conserve)
qed (auto simp: accounted_def reported_def empty_tally_def
          split: if_splits sum.splits astate.splits wstate.splits)

lemma accounted_run:
  "run tr s = Some s' \<Longrightarrow> \<not> panicked s' \<Longrightarrow> accounted s' = accounted s + pushes tr"
proof (induction tr arbitrary: s)
  case Nil
  then show ?case by (simp add: pushes_def)
next
  case (Cons e es)
  then obtain s1 where s1: "step e s = Some s1" "run es s1 = Some s'"
    by (auto split: option.splits)
  have np: "\<not> panicked s1" using panicked_run [OF _ s1(2)] Cons.prems(2) by blast
  have "accounted s' = accounted s1 + pushes es" using Cons.IH [OF s1(2) Cons.prems(2)] .
  moreover have "accounted s1 = accounted s + (if is_push e then 1 else 0)"
    using accounted_step [OF s1(1) np] .
  ultimately show ?case by (simp add: pushes_def)
qed

lemma accounted_bucket_step:
  "step e s = Some s' \<Longrightarrow> \<not> panicked s' \<Longrightarrow>
     accounted_bucket s' c = accounted_bucket s c + count_list (pushed_code e s) c"
proof (cases e)
  case AggRecv
  assume "step e s = Some s'" "\<not> panicked s'"
  then show ?thesis using AggRecv
    by (auto simp: accounted_bucket_def reported_bucket_def
             split: if_splits astate.splits prod.splits dest: recv_select_bucket [where c = c])
next
  case (Push i)
  assume "step e s = Some s'" "\<not> panicked s'"
  then show ?thesis using Push
    by (auto simp: accounted_bucket_def reported_bucket_def count_list_append
             split: if_splits wstate.splits)
qed (auto simp: accounted_bucket_def reported_bucket_def empty_tally_def bucket_def
          split: if_splits sum.splits astate.splits wstate.splits)

lemma accounted_bucket_run:
  "run tr s = Some s' \<Longrightarrow> \<not> panicked s' \<Longrightarrow>
     accounted_bucket s' c = accounted_bucket s c + count_list (pushed tr s) c"
proof (induction tr arbitrary: s)
  case Nil
  then show ?case by simp
next
  case (Cons e es)
  then obtain s1 where s1: "step e s = Some s1" "run es s1 = Some s'"
    by (auto split: option.splits)
  have np: "\<not> panicked s1" using panicked_run [OF _ s1(2)] Cons.prems(2) by blast
  show ?case
    using Cons.IH [OF s1(2) Cons.prems(2)] accounted_bucket_step [OF s1(1) np, of c] s1(1)
    by (simp add: count_list_append)
qed

lemma pushed_code_length:
  "step e s = Some s' \<Longrightarrow> length (pushed_code e s) = (if is_push e then 1 else 0)"
  by (cases e) (auto split: if_splits wstate.splits)

lemma pushed_length: "run tr s = Some s' \<Longrightarrow> length (pushed tr s) = pushes tr"
proof (induction tr arbitrary: s)
  case Nil
  then show ?case by (simp add: pushes_def)
next
  case (Cons e es)
  then obtain s1 where s1: "step e s = Some s1" "run es s1 = Some s'"
    by (auto split: option.splits)
  show ?case using Cons.IH [OF s1(2)] pushed_code_length [OF s1(1)] s1(1)
    by (simp add: pushes_def)
qed

subsection \<open>Summaries\<close>

lemma tallies_ok_step: "tallies_ok s \<Longrightarrow> step e s = Some s' \<Longrightarrow> tallies_ok s'"
proof (cases e)
  case AggRecv
  assume "tallies_ok s" "step e s = Some s'"
  then show ?thesis using AggRecv
    by (auto simp: tallies_ok_def split: if_splits astate.splits prod.splits
             dest: tally_ok_recv)
qed (auto simp: tallies_ok_def tally_ok_empty
          split: if_splits sum.splits astate.splits wstate.splits)

lemma tallies_ok_run: "tallies_ok s \<Longrightarrow> run tr s = Some s' \<Longrightarrow> tallies_ok s'"
  by (induction tr arbitrary: s) (auto split: option.splits dest: tallies_ok_step)

lemma tallies_ok_init: "tallies_ok (init ex tk n)"
  by (simp add: tallies_ok_def init_def)

lemma tally_ok_all: "list_all tally_ok rs \<Longrightarrow> r \<in> set rs \<Longrightarrow> total r = bucket_sum (statusCounts r)"
  by (auto simp: list_all_iff tally_ok_def)

lemma exited_step: "agg s = AExited \<Longrightarrow> step e s = Some s' \<Longrightarrow> agg s' = AExited \<and> reports s' = reports s"
  by (cases e) (auto split: if_splits sum.splits wstate.splits)

lemma exited_run: "agg s = AExited \<Longrightarrow> run tr s = Some s' \<Longrightarrow> agg s' = AExited \<and> reports s' = reports s"
proof (induction tr arbitrary: s)
  case Nil
  then show ?case by simp
next
  case (Cons e es)
  then obtain s1 where s1: "step e s = Some s1" "run es s1 = Some s'"
    by (auto split: option.splits)
  from exited_step [OF Cons.prems(1) s1(1)] Cons.IH [OF _ s1(2)] show ?case by simp
qed

subsection \<open>Pushes and request results\<close>

lemma filter_update_count:
  "i < length xs \<Longrightarrow>
     length (filter P (xs[i := y])) + (if P (xs ! i) then 1 else 0)
       = length (filter P xs) + (if P y then 1 else 0)"
proof (induction xs arbitrary: i)
  case Nil
  then show ?case by simp
next
  case (Cons x xs)
  then show ?case by (cases i) auto
qed

lemma sending_update:
  "i < length ws \<Longrightarrow>
     sending (ws[i := w]) + (if is_send (ws ! i) then 1 else 0)
       = sending ws + (if is_send w then 1 else 0)"
  unfolding sending_def by (rule filter_update_count)

lemma sends_step:
  assumes "step e s = Some s'" and "\<not> panicked s'"
  shows "sending (workers s') + (if is_push e then 1 else 0)
           = sending (workers s) + (if is_code e then 1 else 0)
         \<and> length (errlog s') = length (errlog s) + (if is_error e then 1 else 0)"
proof (cases e)
  case (Permit i)
  then show ?thesis using assms sending_update [of i "workers s" WInFlight]
    by (auto split: if_splits)
next
  case (Result i r)
  then show ?thesis using assms sending_update [of i "workers s" WSelect]
      sending_update [of i "workers s" "WSend c" for c]
    by (cases r) (auto split: if_splits)
next
  case (Push i)
  then show ?thesis using assms sending_update [of i "workers s" WSelect]
    by (auto split: if_splits wstate.splits)
next
  case (Cancel i)
  then show ?thesis using assms sending_update [of i "workers s" WDone]
    by (auto split: if_splits)
qed (use assms in \<open>auto split: if_splits astate.splits prod.splits\<close>)

lemma sends_run:
  "run tr s = Some s' \<Longrightarrow> \<not> panicked s' \<Longrightarrow>
     sending (workers s') + pushes tr = sending (workers s) + codes tr
     \<and> length (errlog s') = length (errlog s) + errors tr"
proof (induction tr arbitrary: s)
  case Nil
  then show ?case by (simp add: pushes_def codes_def errors_def)
next
  case (Cons e es)
  then obtain s1 where s1: "step e s = Some s1" "run es s1 = Some s'"
    by (auto split: option.splits)
  have np: "\<not> panicked s1" using panicked_run [OF _ s1(2)] Cons.prems(2) by blast
  note ih = Cons.IH [OF s1(2) Cons.prems(2)]
  note st = sends_step [OF s1(1) np]
  show ?case using ih st by (auto simp add: pushes_def codes_def errors_def split: if_splits)
qed

subsection \<open>The tick interval\<close>

lemma sdiv_neg_divisor: "(r::int) < 0 \<Longrightarrow> \<not> 0 < 1000000000 sdiv r"
proof -
  assume r: "r < 0"
  have "1000000000 sdiv r = - (1000000000 div (- r))"
    using r by (simp add: signed_divide_int_def sgn_if)
  moreover have "0 \<le> (1000000000::int) div (- r)"
    using r by (simp add: pos_imp_zdiv_nonneg_iff)
  ultimately show ?thesis by simp
qed

lemma sdiv_pos_divisor: "(0::int) < r \<Longrightarrow> 0 < 1000000000 sdiv r \<longleftrightarrow> r \<le> 1000000000"
proof -
  assume r: "0 < r"
  have "1000000000 sdiv r = 1000000000 div r" using r by (simp add: signed_divide_int_def sgn_if)
  moreover have "0 < (1000000000::int) div r \<longleftrightarrow> r \<le> 1000000000"
    using r by (simp add: pos_imp_zdiv_pos_iff)
  ultimately show ?thesis by simp
qed

subsection \<open>Filling the channel\<close>

lemma ok_cycle_filled: "k < 100 \<Longrightarrow> run ok_cycle (filled k) = Some (filled (Suc k))"
  by (simp add: ok_cycle_def filled_def eval_defs replicate_append_same)

lemma concat_replicate_Suc: "concat (replicate (Suc k) xs) = concat (replicate k xs) @ xs"
  by (induction k) simp_all

lemma fill_filled: "k \<le> 100 \<Longrightarrow> run (fill k) (init False True 1) = Some (filled k)"
proof (induction k)
  case 0
  then show ?case by (simp add: fill_def filled_def init_def new_chan_def)
next
  case (Suc k)
  have "fill (Suc k) = fill k @ ok_cycle"
    unfolding fill_def by (rule concat_replicate_Suc)
  then show ?case using Suc ok_cycle_filled [of k] by (simp add: run_append)
qed

lemma hang_run_hung: "run hang_run (init False True 1) = Some hung"
proof -
  have a: "run (fill 100) (init False True 1) = Some (filled 100)"
    by (rule fill_filled) simp
  have b: "run [Permit 0, Result 0 (Inr 200), Deadline, AggCancel] (filled 100) = Some hung"
    by (simp add: hung_def filled_def eval_defs)
  show ?thesis unfolding hang_run_def run_append a option.case by (rule b)
qed

section \<open>The claims\<close>

subsection \<open>C1: pushed Outcomes and the tallies\<close>

text \<open>
  The claim of C1 fails on the code: the aggregator returns at \<^verbatim>\<open>ctx.Done()\<close> without a
  drain, and main prints no tally. In \<open>two_window_run\<close> two status codes are pushed; the
  only summary has total 1, and the program ends with the 503 still in the channel.
\<close>

theorem late_outcome_never_reported:
  "map_option (\<lambda>s. (mainst s, agg s, map total (reports s), buf (statusChan s)))
     (run two_window_run (init False True 1)) = Some (MExited, AExited, [1], [503])
   \<and> pushes two_window_run = 2"
  by (simp add: two_window_run_def eval_defs pushes_def)

text \<open>
  C1, as amended. In every run, the totals of the summaries printed so far, plus what a
  pass of logStatusCounts in progress has received, plus the length of the channel, is
  the number of pushes; and the same holds for every status code \<open>c\<close> taken alone. So
  each pushed status code is tallied by at most one pass and never twice, and the ones
  not tallied are exactly those still in the channel, which no final drain collects.
\<close>

theorem pushes_accounted:
  assumes "run tr (init ex tk n) = Some s"
  shows "reported s + pending (agg s) + length (buf (statusChan s)) = length (pushed tr (init ex tk n))
         \<and> length (pushed tr (init ex tk n)) = pushes tr
         \<and> reported_bucket s c + pending_bucket (agg s) c + count_list (buf (statusChan s)) c
             = count_list (pushed tr (init ex tk n)) c"
proof -
  have np: "\<not> panicked s" using safe_run [OF safe_init assms] by (simp add: safe_def)
  have a: "reported s + pending (agg s) + length (buf (statusChan s)) = pushes tr"
    using accounted_run [OF assms np]
    by (simp add: accounted_def reported_def init_def new_chan_def)
  have b: "reported_bucket s c + pending_bucket (agg s) c + count_list (buf (statusChan s)) c
             = count_list (pushed tr (init ex tk n)) c"
    using accounted_bucket_run [OF assms np, of c]
    by (simp add: accounted_bucket_def reported_bucket_def init_def new_chan_def)
  show ?thesis using a b pushed_length [OF assms] by simp
qed

text \<open>
  In \<open>two_window_run\<close>: two pushes, a 200 reported once and a 503 left in the channel.
\<close>

theorem pushes_accounted_witness:
  "map_option (\<lambda>s. (reported s + pending (agg s) + length (buf (statusChan s)),
                    reported_bucket s 200, count_list (buf (statusChan s)) 503,
                    reported_bucket s 503))
       (run two_window_run (init False True 1)) = Some (2, 1, 1, 0)
   \<and> pushed two_window_run (init False True 1) = [200, 503]"
proof -
  obtain s where s: "run two_window_run (init False True 1) = Some s"
    by (simp add: two_window_run_def eval_defs)
  have p: "pushed two_window_run (init False True 1) = [200, 503]"
    by (simp add: two_window_run_def eval_defs)
  have v: "reported_bucket s 200 = 1" "count_list (buf (statusChan s)) 503 = 1"
      "reported_bucket s 503 = 0"
    using s by (auto simp add: two_window_run_def eval_defs reported_bucket_def bucket_def)
  have "reported s + pending (agg s) + length (buf (statusChan s))
          = length (pushed two_window_run (init False True 1))"
    using pushes_accounted [OF s] by blast
  then show ?thesis using s p v by simp
qed

subsection \<open>C2: a worker at its push after the deadline\<close>

text \<open>
  C2 does not hold of the code: \<^verbatim>\<open>statusChan <- statusCode\<close> is a plain send, outside any
  \<^verbatim>\<open>select\<close>. \<open>hang_run\<close> is a run of the program with one worker: the channel holds
  \<open>chan_cap\<close> values, the worker holds one more, the deadline has passed and the
  aggregator has returned. In the state reached the context is done, the worker is at
  its send and the program is alive, and no event is enabled: the worker never leaves,
  \<^verbatim>\<open>wg.Wait()\<close> never returns.
\<close>

theorem worker_blocked_after_deadline:
  "run hang_run (init False True 1) = Some hung
   \<and> ctx_done hung \<and> workers hung = [WSend 200] \<and> alive hung
   \<and> length (buf (statusChan hung)) = chan_cap
   \<and> (\<forall>e. step e hung = None)"
proof -
  have "step e hung = None" for e
    by (cases e) (auto simp add: hung_def filled_def eval_defs)
  then show ?thesis
    using hang_run_hung by (simp add: hung_def filled_def eval_defs)
qed

subsection \<open>C3: the aggregator at cancellation\<close>

text \<open>
  The claim of C3 fails on the code. In \<open>shutdown_run\<close> a 200 is pushed before the
  deadline; the aggregator observes the cancellation and returns, the program ends, and
  nothing was ever reported: the 200 is still in the channel.
\<close>

theorem no_report_at_shutdown:
  "map_option (\<lambda>s. (mainst s, agg s, reports s, buf (statusChan s)))
     (run shutdown_run (init False True 1)) = Some (MExited, AExited, [], [200])"
  by (simp add: shutdown_run_def eval_defs)

text \<open>
  C3, as amended. When the aggregator observes the cancellation it returns at once: the
  summaries and the channel are as before. Once it has returned no run of the program
  adds a summary, the close of the channel and the return of main included. Every pass
  starts from the empty tally at its tick: there is no cumulative total.
\<close>

theorem aggregator_cancel_reports_nothing:
  "(step AggCancel s = Some s1 \<longrightarrow>
      agg s1 = AExited \<and> reports s1 = reports s \<and> statusChan s1 = statusChan s)
   \<and> (agg s = AExited \<and> run tr s = Some s2 \<longrightarrow> agg s2 = AExited \<and> reports s2 = reports s)
   \<and> (step Tick s = Some s3 \<longrightarrow> agg s3 = ARecv empty_tally \<and> reports s3 = reports s)"
  using exited_run [of s tr s2] by (auto split: if_splits)

text \<open>
  At \<open>cancel_pending\<close> (context done, a 200 in the channel) the aggregator returns; the
  worker and main then finish, and nothing is reported.
\<close>

theorem aggregator_cancel_reports_nothing_witness:
  "step AggCancel cancel_pending = Some (cancel_pending\<lparr>agg := AExited\<rparr>)
   \<and> agg (cancel_pending\<lparr>agg := AExited\<rparr>) = AExited
   \<and> reports (cancel_pending\<lparr>agg := AExited\<rparr>) = reports cancel_pending
   \<and> statusChan (cancel_pending\<lparr>agg := AExited\<rparr>) = statusChan cancel_pending
   \<and> map_option (\<lambda>s. (agg s, reports s))
        (run [Cancel 0, MainClose, MainExit] (cancel_pending\<lparr>agg := AExited\<rparr>))
        = Some (AExited, reports cancel_pending)
   \<and> map_option (\<lambda>s. (agg s, reports s)) (step Tick cancel_pending)
        = Some (ARecv empty_tally, reports cancel_pending)"
proof -
  let ?s1 = "cancel_pending\<lparr>agg := AExited\<rparr>"
  have a: "step AggCancel cancel_pending = Some ?s1"
    by (simp add: cancel_pending_def eval_defs)
  obtain s2 where b: "run [Cancel 0, MainClose, MainExit] ?s1 = Some s2"
    by (simp add: cancel_pending_def eval_defs)
  obtain s3 where c: "step Tick cancel_pending = Some s3"
    by (simp add: cancel_pending_def eval_defs)
  have x: "agg ?s1 = AExited" by simp
  have r1: "agg ?s1 = AExited \<and> reports ?s1 = reports cancel_pending
              \<and> statusChan ?s1 = statusChan cancel_pending"
    using aggregator_cancel_reports_nothing [of cancel_pending ?s1 "[]" ?s1 s3] a by blast
  have r2: "agg s2 = AExited \<and> reports s2 = reports ?s1"
    using aggregator_cancel_reports_nothing [of ?s1 ?s1 "[Cancel 0, MainClose, MainExit]" s2 s3] b x by blast
  have r3: "agg s3 = ARecv empty_tally \<and> reports s3 = reports cancel_pending"
    using aggregator_cancel_reports_nothing [of cancel_pending ?s1 "[]" ?s1 s3] c by blast
  have m2: "map_option (\<lambda>s. (agg s, reports s)) (run [Cancel 0, MainClose, MainExit] ?s1)
              = Some (AExited, reports cancel_pending)"
    unfolding b using r2 by simp
  have m3: "map_option (\<lambda>s. (agg s, reports s)) (step Tick cancel_pending)
              = Some (ARecv empty_tally, reports cancel_pending)"
    unfolding c using r3 by simp
  show ?thesis using a r1 m2 m3 by blast
qed

subsection \<open>C4: what a worker pushes for a request\<close>

text \<open>
  The claim of C4 fails on the code for a request that ends in an error: the worker logs
  it, pushes nothing (the channel carries \<^verbatim>\<open>int\<close> status codes only) and is back at
  its \<^verbatim>\<open>select\<close>.
\<close>

theorem failed_request_pushes_nothing:
  "map_option (\<lambda>s. (workers s, buf (statusChan s), errlog s))
     (run refused_run (init False True 1))
     = Some ([WSelect], [], [RequestFailed ''connection refused''])
   \<and> pushes refused_run = 0"
  by (simp add: refused_run_def eval_defs pushes_def)

text \<open>
  C4, as amended. In every run the pushes, plus the workers holding a status code at
  their send, are as many as the requests answered with a status code, and the logged
  errors as many as the requests that failed. A push appends the status code the worker
  holds to the channel and takes the worker back to its \<^verbatim>\<open>select\<close>; a failed request
  leaves the channel as it is, logs the error and takes the worker back to its
  \<^verbatim>\<open>select\<close>; a status code takes the worker to its send.
\<close>

theorem one_push_per_status_code:
  assumes "run tr (init ex tk n) = Some s"
  shows "pushes tr + sending (workers s) = codes tr
         \<and> length (errlog s) = errors tr
         \<and> (\<forall>i s'. step (Push i) s = Some s' \<longrightarrow>
               (\<exists>c. workers s ! i = WSend c
                  \<and> buf (statusChan s') = buf (statusChan s) @ [c]
                  \<and> workers s' = (workers s)[i := WSelect]))
         \<and> (\<forall>i e s'. step (Result i (Inl e)) s = Some s' \<longrightarrow>
               statusChan s' = statusChan s \<and> workers s' = (workers s)[i := WSelect]
               \<and> errlog s' = errlog s @ [e])
         \<and> (\<forall>i c s'. step (Result i (Inr c)) s = Some s' \<longrightarrow>
               statusChan s' = statusChan s \<and> workers s' = (workers s)[i := WSend c])"
proof -
  have sf: "safe s" using safe_run [OF safe_init assms] .
  then have np: "\<not> panicked s" by (simp add: safe_def)
  have cnt: "pushes tr + sending (workers s) = codes tr \<and> length (errlog s) = errors tr"
    using sends_run [OF assms np] by (simp add: init_def sending_def)
  have push: "\<exists>c. workers s ! i = WSend c
                  \<and> buf (statusChan s') = buf (statusChan s) @ [c]
                  \<and> workers s' = (workers s)[i := WSelect]"
    if "step (Push i) s = Some s'" for i s'
  proof -
    have "safe s'" using safe_step [OF sf that] .
    then have "\<not> panicked s'" by (simp add: safe_def)
    then show ?thesis using that by (auto split: if_splits wstate.splits)
  qed
  show ?thesis using cnt push by (auto split: if_splits)
qed

text \<open>
  After one request answered 200 the worker holds it (no push yet, one status code);
  the push then puts 200 in the channel.
\<close>

theorem one_push_per_status_code_witness:
  "run code_run (init False True 1) \<noteq> None
   \<and> pushes code_run + 1 = codes code_run
   \<and> map_option (\<lambda>s. (workers s, buf (statusChan s)))
        (run (code_run @ [Push 0]) (init False True 1)) = Some ([WSelect], [200])"
proof -
  obtain s where s: "run code_run (init False True 1) = Some s"
    by (simp add: code_run_def eval_defs)
  have w: "workers s = [WSend 200]" and c: "buf (statusChan s) = []"
    using s by (auto simp add: code_run_def eval_defs)
  obtain s' where p: "step (Push 0) s = Some s'"
    using s by (auto simp add: code_run_def eval_defs)
  have n: "pushes code_run + sending (workers s) = codes code_run"
    using one_push_per_status_code [OF s] by (rule conjunct1)
  have "\<exists>c. workers s ! 0 = WSend c \<and> buf (statusChan s') = buf (statusChan s) @ [c]
          \<and> workers s' = (workers s)[0 := WSelect]"
    using one_push_per_status_code [OF s] p by blast
  then have q: "workers s' = [WSelect] \<and> buf (statusChan s') = [200]"
    using w c by auto
  have "run (code_run @ [Push 0]) (init False True 1) = Some s'"
    using s p by (simp add: run_append)
  then have m: "map_option (\<lambda>s. (workers s, buf (statusChan s)))
        (run (code_run @ [Push 0]) (init False True 1)) = Some ([WSelect], [200])"
    using q by simp
  have k: "sending (workers s) = 1" using w by (simp add: sending_def)
  show ?thesis using s n k m by simp
qed

subsection \<open>C5: the rate at the start of main\<close>

text \<open>
  The claim of C5 fails on the code: main checks the URL only. With rate -1 and a URL
  that parses, main starts its five workers, with a nil rate limiter.
\<close>

theorem negative_rate_accepted:
  "main_start parse_ok negative_rate_flags = Inr (init False False 5)"
  by (simp add: main_start_def parse_ok_def negative_rate_flags_def signed_divide_int_def)

text \<open>
  C5, as amended. main stops with a configuration error exactly when the URL is empty or
  does not parse. With a URL that parses: a rate of 0 stops the program before any
  worker starts, by the division panic at the first use of the rate; a negative rate
  starts the workers with a nil rate limiter, and no worker ever receives a permit; a
  positive rate starts the workers, with a rate limiter that ticks when the rate is at
  most \<open>10^9\<close>.
\<close>

theorem main_start_cases:
  "(main_start url_parse f = Inl UrlRequired \<longleftrightarrow> urlStr f = [])
   \<and> (\<forall>e. main_start url_parse f = Inl (InvalidURL e)
            \<longleftrightarrow> urlStr f \<noteq> [] \<and> url_parse (urlStr f) = Inl e)
   \<and> (urlStr f \<noteq> [] \<and> url_parse (urlStr f) = Inr u \<and> rateLimit f = 0
        \<longrightarrow> main_start url_parse f = Inl DivideByZeroPanic)
   \<and> (urlStr f \<noteq> [] \<and> url_parse (urlStr f) = Inr u \<and> rateLimit f < 0
        \<longrightarrow> main_start url_parse f = Inr (init (duration f \<le> 0) False (nat (concurrent f)))
            \<and> (\<forall>tr s i. run tr (init (duration f \<le> 0) False (nat (concurrent f))) = Some s
                  \<longrightarrow> step (Permit i) s = None))
   \<and> (urlStr f \<noteq> [] \<and> url_parse (urlStr f) = Inr u \<and> 0 < rateLimit f
        \<longrightarrow> main_start url_parse f
              = Inr (init (duration f \<le> 0) (rateLimit f \<le> 1000000000) (nat (concurrent f))))"
proof -
  have np: "step (Permit i) s = None"
    if "run tr (init ex False n) = Some s" for tr s i ex n
  proof -
    have "ticking s = ticking (init ex False n)" using ticking_run [OF that] .
    then have "\<not> ticking s" by (simp add: init_def)
    then show ?thesis by (rule no_permit)
  qed
  have a: "main_start url_parse f = Inl UrlRequired \<longleftrightarrow> urlStr f = []"
    by (auto simp: main_start_def Let_def split: sum.splits)
  have b: "\<forall>e. main_start url_parse f = Inl (InvalidURL e)
            \<longleftrightarrow> urlStr f \<noteq> [] \<and> url_parse (urlStr f) = Inl e"
    by (auto simp: main_start_def Let_def split: sum.splits)
  have c: "main_start url_parse f = Inl DivideByZeroPanic"
    if "urlStr f \<noteq> []" "url_parse (urlStr f) = Inr u" "rateLimit f = 0"
    using that by (simp add: main_start_def)
  have d: "main_start url_parse f = Inr (init (duration f \<le> 0) False (nat (concurrent f)))"
    if "urlStr f \<noteq> []" "url_parse (urlStr f) = Inr u" "rateLimit f < 0"
    using that sdiv_neg_divisor [OF that(3)] by (simp add: main_start_def Let_def)
  have e: "main_start url_parse f
              = Inr (init (duration f \<le> 0) (rateLimit f \<le> 1000000000) (nat (concurrent f)))"
    if "urlStr f \<noteq> []" "url_parse (urlStr f) = Inr u" "0 < rateLimit f"
    using that sdiv_pos_divisor [OF that(3)] by (simp add: main_start_def Let_def)
  show ?thesis using a b c d e np by blast
qed

text \<open>
  Rates 0, -3 and 10 with a URL that parses, and an empty URL.
\<close>

theorem main_start_cases_witness:
  "main_start parse_ok zero_rate_flags = Inl DivideByZeroPanic
   \<and> main_start parse_ok (zero_rate_flags\<lparr>rateLimit := - 3\<rparr>) = Inr (init False False 5)
   \<and> step (Permit 0) (init False False 5) = None
   \<and> main_start parse_ok (zero_rate_flags\<lparr>rateLimit := 10\<rparr>) = Inr (init False True 5)
   \<and> main_start parse_ok (zero_rate_flags\<lparr>urlStr := []\<rparr>) = Inl UrlRequired"
proof -
  let ?u = "\<lparr>scheme = ''http'', url_string = ''http://localhost:8080/''\<rparr>"
  have p: "urlStr zero_rate_flags \<noteq> [] \<and> parse_ok (urlStr zero_rate_flags) = Inr ?u"
    by (simp add: zero_rate_flags_def parse_ok_def)
  have z: "main_start parse_ok zero_rate_flags = Inl DivideByZeroPanic"
    using main_start_cases [of parse_ok zero_rate_flags ?u] p by (simp add: zero_rate_flags_def)
  have n: "main_start parse_ok (zero_rate_flags\<lparr>rateLimit := - 3\<rparr>) = Inr (init False False 5)
           \<and> step (Permit 0) (init False False 5) = None"
  proof -
    have r: "run [] (init False False 5) = Some (init False False 5)" by simp
    have h: "urlStr (zero_rate_flags\<lparr>rateLimit := - 3\<rparr>) \<noteq> []
       \<and> parse_ok (urlStr (zero_rate_flags\<lparr>rateLimit := - 3\<rparr>)) = Inr ?u
       \<and> rateLimit (zero_rate_flags\<lparr>rateLimit := - 3\<rparr>) < 0"
      by (simp add: zero_rate_flags_def parse_ok_def)
    have v: "(duration (zero_rate_flags\<lparr>rateLimit := - 3\<rparr>) \<le> 0) = False"
       "nat (concurrent (zero_rate_flags\<lparr>rateLimit := - 3\<rparr>)) = 5"
      by (simp_all add: zero_rate_flags_def)
    from main_start_cases [of parse_ok "zero_rate_flags\<lparr>rateLimit := - 3\<rparr>" ?u] h
    have "main_start parse_ok (zero_rate_flags\<lparr>rateLimit := - 3\<rparr>)
            = Inr (init (duration (zero_rate_flags\<lparr>rateLimit := - 3\<rparr>) \<le> 0) False
                     (nat (concurrent (zero_rate_flags\<lparr>rateLimit := - 3\<rparr>))))
          \<and> (\<forall>tr s i. run tr (init (duration (zero_rate_flags\<lparr>rateLimit := - 3\<rparr>) \<le> 0) False
                     (nat (concurrent (zero_rate_flags\<lparr>rateLimit := - 3\<rparr>)))) = Some s
                  \<longrightarrow> step (Permit i) s = None)"
      by blast
    then show ?thesis unfolding v using r by blast
  qed
  have t: "main_start parse_ok (zero_rate_flags\<lparr>rateLimit := 10\<rparr>) = Inr (init False True 5)"
    using main_start_cases [of parse_ok "zero_rate_flags\<lparr>rateLimit := 10\<rparr>" ?u]
    by (simp add: zero_rate_flags_def parse_ok_def)
  have e: "main_start parse_ok (zero_rate_flags\<lparr>urlStr := []\<rparr>) = Inl UrlRequired"
    using main_start_cases [of parse_ok "zero_rate_flags\<lparr>urlStr := []\<rparr>" ?u]
    by (simp add: zero_rate_flags_def)
  show ?thesis using z n t e by blast
qed

subsection \<open>C6: closing the channel\<close>

text \<open>
  C6. In every run no goroutine has panicked (a push on a closed channel would panic);
  when the channel is closed every worker has returned and no push is enabled; and the
  only event that closes the channel is main's, after \<^verbatim>\<open>wg.Wait()\<close>, with every
  worker returned.
\<close>

theorem channel_closed_after_workers:
  assumes "run tr (init ex tk n) = Some s"
  shows "\<not> panicked s
         \<and> (closed (statusChan s) \<longrightarrow> all_done (workers s) \<and> (\<forall>i. step (Push i) s = None))
         \<and> (\<forall>e s'. step e s = Some s' \<and> \<not> closed (statusChan s) \<and> closed (statusChan s')
               \<longrightarrow> e = MainClose \<and> all_done (workers s))"
proof -
  have sf: "safe s" using safe_run [OF safe_init assms] .
  have a: "\<not> panicked s" using sf by (simp add: safe_def)
  have b: "all_done (workers s) \<and> (\<forall>i. step (Push i) s = None)" if "closed (statusChan s)"
  proof -
    have d: "all_done (workers s)" using sf that by (simp add: safe_def)
    then show ?thesis using push_needs_send [of "workers s" _ s] by simp
  qed
  have c: "e = MainClose \<and> all_done (workers s)"
    if "step e s = Some s'" "\<not> closed (statusChan s)" "closed (statusChan s')" for e s'
  proof -
    have e: "e = MainClose" using close_only_main [OF that] .
    then show ?thesis using that(1) by (auto split: if_splits)
  qed
  show ?thesis using a b c by blast
qed

text \<open>
  After \<open>returned_run\<close> the channel is open, the worker has returned and main can
  close; after the close the program is alive, the channel closed, and the worker cannot
  push.
\<close>

theorem channel_closed_after_workers_witness:
  "map_option (\<lambda>s. (closed (statusChan s), all_done (workers s), step MainClose s \<noteq> None))
     (run returned_run (init False True 1)) = Some (False, True, True)
   \<and> map_option (\<lambda>s. (panicked s, alive s, closed (statusChan s), all_done (workers s),
                       step (Push 0) s))
       (run (returned_run @ [MainClose]) (init False True 1))
       = Some (False, True, True, True, None)"
proof -
  obtain s0 where s0: "run returned_run (init False True 1) = Some s0"
    by (simp add: returned_run_def eval_defs)
  obtain s1 where s1: "step MainClose s0 = Some s1"
    using s0 by (auto simp add: returned_run_def eval_defs)
  have o: "\<not> closed (statusChan s0)" using s0 by (auto simp add: returned_run_def eval_defs)
  have cl: "closed (statusChan s1)" "alive s1"
    using s0 s1 by (auto simp add: returned_run_def eval_defs split: if_splits)
  have r1: "run (returned_run @ [MainClose]) (init False True 1) = Some s1"
    using s0 s1 by (simp add: run_append)
  have "all_done (workers s0)"
    using channel_closed_after_workers [OF s0] s1 o cl(1) by blast
  then have m0: "map_option (\<lambda>s. (closed (statusChan s), all_done (workers s), step MainClose s \<noteq> None))
     (run returned_run (init False True 1)) = Some (False, True, True)"
    using s0 s1 o by simp
  have "\<not> panicked s1 \<and> all_done (workers s1) \<and> step (Push 0) s1 = None"
    using channel_closed_after_workers [OF r1] cl(1) by blast
  then have m1: "map_option (\<lambda>s. (panicked s, alive s, closed (statusChan s), all_done (workers s),
                       step (Push 0) s))
       (run (returned_run @ [MainClose]) (init False True 1))
       = Some (False, True, True, True, None)"
    using r1 cl by simp
  show ?thesis using m0 m1 by blast
qed

subsection \<open>C7: draining an empty channel\<close>

text \<open>
  C7. On an empty channel, open or closed, logStatusCounts returns the empty tally (no
  bucket, total 0) and leaves the channel as it is; as a function it is total, with no
  error result. In the program, the aggregator's tick, \<^verbatim>\<open>select\<close> and length test on
  an empty channel are all enabled one after the other and print the empty tally; and
  in any state the \<^verbatim>\<open>select\<close> and the length test of the drain loop are enabled,
  whatever the channel holds: the pass never waits. (When a push lands between the
  \<^verbatim>\<open>select\<close> and the length test the channel is no longer empty, and the pass goes on.)
\<close>

theorem drain_of_empty_channel:
  assumes "buf ch = []"
  shows "logStatusCounts ch = (ch, empty_tally)
         \<and> statusCounts empty_tally = Map.empty \<and> total empty_tally = 0
         \<and> (alive s \<and> agg s = AIdle \<and> statusChan s = ch \<longrightarrow>
              map_option (\<lambda>s'. (agg s', statusChan s', reports s')) (run [Tick, AggRecv, AggLen] s)
                = Some (AIdle, ch, reports s @ [empty_tally]))
         \<and> (alive s \<and> agg s = ARecv t \<longrightarrow> step AggRecv s \<noteq> None)
         \<and> (alive s \<and> agg s = ALen t \<longrightarrow> step AggLen s \<noteq> None)"
proof -
  have a: "logStatusCounts ch = (ch, empty_tally)" using assms by (rule drain_empty)
  have b: "statusCounts empty_tally = Map.empty \<and> total empty_tally = 0"
    by (simp add: empty_tally_def)
  have c: "map_option (\<lambda>s'. (agg s', statusChan s', reports s')) (run [Tick, AggRecv, AggLen] s)
                = Some (AIdle, ch, reports s @ [empty_tally])"
    if "alive s" "agg s = AIdle" "statusChan s = ch"
    using that assms by (simp add: recv_select_def alive_def)
  have d: "step AggRecv s \<noteq> None" if "alive s" "agg s = ARecv t"
    using that by (simp split: prod.splits)
  have e: "step AggLen s \<noteq> None" if "alive s" "agg s = ALen t"
    using that by simp
  show ?thesis using a b c d e by blast
qed

text \<open>
  A closed empty channel, a new channel, the first tick of a program, and a pass on a
  full channel.
\<close>

theorem drain_of_empty_channel_witness:
  "buf \<lparr>buf = [], closed = True\<rparr> = []
   \<and> logStatusCounts \<lparr>buf = [], closed = True\<rparr> = (\<lparr>buf = [], closed = True\<rparr>, empty_tally)
   \<and> logStatusCounts new_chan = (new_chan, empty_tally)
   \<and> map_option (\<lambda>s'. (agg s', statusChan s', reports s'))
        (run [Tick, AggRecv, AggLen] (init False True 1))
        = Some (AIdle, new_chan, [empty_tally])
   \<and> alive ((filled 100)\<lparr>agg := ARecv empty_tally\<rparr>)
   \<and> step AggRecv ((filled 100)\<lparr>agg := ARecv empty_tally\<rparr>) \<noteq> None
   \<and> alive ((filled 100)\<lparr>agg := ALen empty_tally\<rparr>)
   \<and> step AggLen ((filled 100)\<lparr>agg := ALen empty_tally\<rparr>) \<noteq> None"
proof -
  have e: "buf new_chan = []" by (simp add: new_chan_def)
  have al: "alive ((filled 100)\<lparr>agg := ARecv empty_tally\<rparr>)"
      "alive ((filled 100)\<lparr>agg := ALen empty_tally\<rparr>)"
    by (simp_all add: filled_def init_def alive_def)
  have nb1: "step AggRecv ((filled 100)\<lparr>agg := ARecv empty_tally\<rparr>) \<noteq> None"
  proof -
    have "agg ((filled 100)\<lparr>agg := ARecv empty_tally\<rparr>) = ARecv empty_tally" by simp
    then show ?thesis
      using drain_of_empty_channel [OF e, of "(filled 100)\<lparr>agg := ARecv empty_tally\<rparr>" empty_tally] al(1)
      by blast
  qed
  have nb2: "step AggLen ((filled 100)\<lparr>agg := ALen empty_tally\<rparr>) \<noteq> None"
  proof -
    have "agg ((filled 100)\<lparr>agg := ALen empty_tally\<rparr>) = ALen empty_tally" by simp
    then show ?thesis
      using drain_of_empty_channel [OF e, of "(filled 100)\<lparr>agg := ALen empty_tally\<rparr>" empty_tally] al(2)
      by blast
  qed
  have e': "buf \<lparr>buf = [], closed = True\<rparr> = []" by simp
  have i: "alive (init False True 1) \<and> agg (init False True 1) = AIdle
             \<and> statusChan (init False True 1) = new_chan"
    by (simp add: init_def alive_def)
  have r: "reports (init False True 1) = []" by (simp add: init_def)
  have "map_option (\<lambda>s'. (agg s', statusChan s', reports s'))
        (run [Tick, AggRecv, AggLen] (init False True 1))
        = Some (AIdle, new_chan, reports (init False True 1) @ [empty_tally])"
    using drain_of_empty_channel [OF e, of "init False True 1" empty_tally] i by blast
  then have m: "map_option (\<lambda>s'. (agg s', statusChan s', reports s'))
        (run [Tick, AggRecv, AggLen] (init False True 1))
        = Some (AIdle, new_chan, [empty_tally])"
    unfolding r by simp
  have x: "logStatusCounts \<lparr>buf = [], closed = True\<rparr> = (\<lparr>buf = [], closed = True\<rparr>, empty_tally)"
    using drain_of_empty_channel [OF e', of "init False True 1" empty_tally] by blast
  have y: "logStatusCounts new_chan = (new_chan, empty_tally)"
    using drain_of_empty_channel [OF e, of "init False True 1" empty_tally] by blast
  show ?thesis using e' x y m al nb1 nb2 by blast
qed

subsection \<open>C8: a request that fails\<close>

text \<open>
  C8. A failure of \<^verbatim>\<open>client.Do\<close> or of reading the body makes sendRequest return
  an error value. In every run, a worker inside sendRequest can always take the error:
  the error is logged, the worker is back at its \<^verbatim>\<open>select\<close>, and nothing else
  changes (the context, main, the aggregator, the channel and the other workers are as
  before, and nothing has panicked). A worker has returned only if the context is done; with at
  least one worker, main has left \<^verbatim>\<open>wg.Wait()\<close> only if the context is done; and the
  only event that makes the context done is the deadline.
\<close>

theorem request_error_recovered:
  assumes "run tr (init ex tk n) = Some s"
  shows "(snd (sendRequest env u m) = Some (cl, rq) \<and> client_do env cl rq = Inl e1
            \<longrightarrow> fst (sendRequest env u m) = Inl (RequestFailed e1))
         \<and> (snd (sendRequest env u m) = Some (cl, rq) \<and> client_do env cl rq = Inr resp
              \<and> read_all env resp = Some e2
            \<longrightarrow> fst (sendRequest env u m) = Inl (ReadFailed e2))
         \<and> (alive s \<and> i < length (workers s) \<and> workers s ! i = WInFlight \<longrightarrow>
            step (Result i (Inl err)) s
              = Some (s\<lparr>errlog := errlog s @ [err], workers := (workers s)[i := WSelect]\<rparr>))
         \<and> (WDone \<in> set (workers s) \<longrightarrow> ctx_done s)
         \<and> (0 < n \<and> mainst s \<noteq> MWait \<longrightarrow> ctx_done s)
         \<and> (\<forall>e s'. step e s = Some s' \<and> \<not> ctx_done s \<and> ctx_done s' \<longrightarrow> e = Deadline)"
proof -
  have ead: "exits_after_deadline s" using ead_run [OF ead_init assms] .
  have len: "length (workers s) = n" using length_workers_run [OF assms] by (simp add: init_def)
  have a: "WDone \<in> set (workers s) \<longrightarrow> ctx_done s"
    using ead by (simp add: exits_after_deadline_def)
  have b: "ctx_done s" if "0 < n" "mainst s \<noteq> MWait"
  proof -
    have "all_done (workers s)" using ead that(2) by (simp add: exits_after_deadline_def)
    then have "workers s ! 0 = WDone" using len that(1) by (simp add: all_done_nth)
    then have "WDone \<in> set (workers s)" using len that(1) by (metis nth_mem)
    then show ?thesis using a by simp
  qed
  have c: "e = Deadline" if "step e s = Some s'" "\<not> ctx_done s" "ctx_done s'" for e s'
    using done_only_deadline [OF that] .
  have d: "alive s \<and> i < length (workers s) \<and> workers s ! i = WInFlight \<longrightarrow>
            step (Result i (Inl err)) s
              = Some (s\<lparr>errlog := errlog s @ [err], workers := (workers s)[i := WSelect]\<rparr>)"
    by simp
  show ?thesis using a b c d sendRequest_do_failed sendRequest_read_failed by blast
qed

text \<open>
  A refused connection is returned as an error. Three failed requests in a row leave
  the worker at its \<^verbatim>\<open>select\<close>, the program waiting and the errors logged; after
  the deadline the worker returns and main closes.
\<close>

theorem request_error_recovered_witness:
  "sendRequest refusing_env \<lparr>scheme = ''http'', url_string = ''http://localhost:1/''\<rparr> ''GET''
     = (Inl (RequestFailed ''connection refused''),
        Some (DefaultClient,
              \<lparr>req_method = ''GET'', req_url = ''http://localhost:1/'',
               req_body = ''gz:This is a stress test payload'',
               req_header = [''Content-Encoding'' \<mapsto> ''gzip'',
                             ''Content-Type'' \<mapsto> ''application/json'']\<rparr>))
   \<and> map_option (\<lambda>s. (workers s, errlog s, ctx_done s, mainst s, alive s))
     (run (failing_run @ [Result 0 (Inl (ReadFailed ''reset''))]) (init False True 1))
   = Some ([WSelect],
           [RequestFailed ''connection refused'', RequestFailed ''timeout'', ReadFailed ''reset''],
           False, MWait, True)
   \<and> map_option (\<lambda>s. (workers s, ctx_done s, mainst s))
       (run [Deadline, Cancel 0, MainClose] (init False True 1)) = Some ([WDone], True, MClosed)"
proof -
  let ?u = "\<lparr>scheme = ''http'', url_string = ''http://localhost:1/''\<rparr>"
  let ?rq = "\<lparr>req_method = ''GET'', req_url = ''http://localhost:1/'',
               req_body = ''gz:This is a stress test payload'',
               req_header = [''Content-Encoding'' \<mapsto> ''gzip'',
                             ''Content-Type'' \<mapsto> ''application/json'']\<rparr>"
  obtain s where s: "run failing_run (init False True 1) = Some s"
    by (simp add: failing_run_def eval_defs)
  have sn: "snd (sendRequest refusing_env ?u ''GET'') = Some (DefaultClient, ?rq)"
    by (simp add: sendRequest_def refusing_env_def echo_env_def payload_def select_client_def
                  request_method_def)
  have cd: "client_do refusing_env DefaultClient ?rq = Inl ''connection refused''"
    by (simp add: refusing_env_def)
  have "fst (sendRequest refusing_env ?u ''GET'') = Inl (RequestFailed ''connection refused'')"
    using request_error_recovered [OF s, of refusing_env ?u "''GET''" DefaultClient ?rq "''connection refused''"]
      sn cd by blast
  then have m0: "sendRequest refusing_env ?u ''GET''
     = (Inl (RequestFailed ''connection refused''), Some (DefaultClient, ?rq))"
    using sn by (simp add: prod_eq_iff)
  have p: "alive s \<and> 0 < length (workers s) \<and> workers s ! 0 = WInFlight"
    and q: "workers s = [WInFlight]" "mainst s = MWait" "\<not> ctx_done s"
      "errlog s = [RequestFailed ''connection refused'', RequestFailed ''timeout'']"
    using s by (auto simp add: failing_run_def eval_defs)
  have st: "step (Result 0 (Inl (ReadFailed ''reset''))) s
          = Some (s\<lparr>errlog := errlog s @ [ReadFailed ''reset''], workers := (workers s)[0 := WSelect]\<rparr>)"
    using request_error_recovered [OF s, where i = 0 and err = "ReadFailed ''reset''"] p by blast
  have m1: "map_option (\<lambda>s. (workers s, errlog s, ctx_done s, mainst s, alive s))
     (run (failing_run @ [Result 0 (Inl (ReadFailed ''reset''))]) (init False True 1))
   = Some ([WSelect],
           [RequestFailed ''connection refused'', RequestFailed ''timeout'', ReadFailed ''reset''],
           False, MWait, True)"
    using s st p q by (simp add: run_append alive_def)
  obtain s2 where s2: "run [Deadline, Cancel 0, MainClose] (init False True 1) = Some s2"
    by (simp add: eval_defs)
  have w2: "workers s2 = [WDone]" "mainst s2 = MClosed"
    using s2 by (auto simp add: eval_defs)
  have "WDone \<in> set (workers s2)" using w2 by simp
  then have "ctx_done s2" using request_error_recovered [OF s2] by blast
  then have m2: "map_option (\<lambda>s. (workers s, ctx_done s, mainst s))
       (run [Deadline, Cancel 0, MainClose] (init False True 1)) = Some ([WDone], True, MClosed)"
    using s2 w2 by simp
  show ?thesis using m0 m1 m2 by blast
qed

subsection \<open>C9: the total of a summary\<close>

text \<open>
  C9. In every run, the total of every printed summary is the sum of its buckets, and
  so is the tally of a pass in progress, at its \<^verbatim>\<open>select\<close> and at its length test;
  the same holds of the result of logStatusCounts run alone. Counting a status code
  adds one to the total and one to the bucket of that code, and leaves the other
  buckets.
\<close>

theorem report_total_is_bucket_sum:
  "(run tr (init ex tk n) = Some s \<longrightarrow>
      (\<forall>r\<in>set (reports s). total r = bucket_sum (statusCounts r))
      \<and> (\<forall>t. agg s = ARecv t \<or> agg s = ALen t \<longrightarrow> total t = bucket_sum (statusCounts t)))
   \<and> total (snd (logStatusCounts ch)) = bucket_sum (statusCounts (snd (logStatusCounts ch)))
   \<and> total (count_status c t0) = total t0 + 1
   \<and> statusCounts (count_status c t0) c
        = Some ((case statusCounts t0 c of None \<Rightarrow> 0 | Some k \<Rightarrow> k) + 1)
   \<and> (\<forall>c'. c' \<noteq> c \<longrightarrow> statusCounts (count_status c t0) c' = statusCounts t0 c')"
proof -
  have a: "(\<forall>r\<in>set (reports s). total r = bucket_sum (statusCounts r))
      \<and> (\<forall>t. agg s = ARecv t \<or> agg s = ALen t \<longrightarrow> total t = bucket_sum (statusCounts t))"
    if "run tr (init ex tk n) = Some s"
  proof -
    have ok: "tallies_ok s" using tallies_ok_run [OF tallies_ok_init that] .
    then have "list_all tally_ok (reports s)" and g: "agg_ok (agg s)"
      by (simp_all add: tallies_ok_def)
    then have "\<forall>r\<in>set (reports s). total r = bucket_sum (statusCounts r)"
      using tally_ok_all by blast
    moreover have "\<forall>t. agg s = ARecv t \<or> agg s = ALen t \<longrightarrow> total t = bucket_sum (statusCounts t)"
      using g by (auto simp: tally_ok_def)
    ultimately show ?thesis by blast
  qed
  have b: "total (snd (logStatusCounts ch)) = bucket_sum (statusCounts (snd (logStatusCounts ch)))"
    using drain_loop_ok [OF tally_ok_empty, of ch] by (simp add: logStatusCounts_def tally_ok_def)
  have c: "total (count_status c t0) = total t0 + 1
   \<and> statusCounts (count_status c t0) c
        = Some ((case statusCounts t0 c of None \<Rightarrow> 0 | Some k \<Rightarrow> k) + 1)
   \<and> (\<forall>c'. c' \<noteq> c \<longrightarrow> statusCounts (count_status c t0) c' = statusCounts t0 c')"
    by (simp add: count_status_def)
  show ?thesis using a b c by blast
qed

text \<open>
  In \<open>mixed_run\<close> the summary has total 3, buckets 200 (2) and 503 (1).
\<close>

theorem report_total_is_bucket_sum_witness:
  "map_option (\<lambda>s. map (\<lambda>r. (total r, bucket_sum (statusCounts r), statusCounts r 200,
                               statusCounts r 503)) (reports s))
     (run mixed_run (init False True 1)) = Some [(3, 3, Some 2, Some 1)]"
proof -
  obtain s where s: "run mixed_run (init False True 1) = Some s"
    by (simp add: mixed_run_def eval_defs)
  have r: "\<exists>r. reports s = [r] \<and> total r = 3 \<and> statusCounts r 200 = Some 2
               \<and> statusCounts r 503 = Some 1"
    using s by (auto simp add: mixed_run_def eval_defs)
  then obtain r where r: "reports s = [r]" "total r = 3" "statusCounts r 200 = Some 2"
      "statusCounts r 503 = Some 1" by blast
  have "\<forall>r\<in>set (reports s). total r = bucket_sum (statusCounts r)"
    using report_total_is_bucket_sum [of mixed_run False True 1 s "new_chan" 0 empty_tally] s by blast
  then have "bucket_sum (statusCounts r) = 3" using r by simp
  then show ?thesis using s r by simp
qed

subsection \<open>C10: the request of sendRequest\<close>

text \<open>
  C10. Whenever sendRequest hands a request to a client, for any method: the body is
  the gzip stream of the fixed payload, the headers are exactly Content-Encoding: gzip
  and Content-Type: application/json, and the client is chosen by the scheme alone. The
  method of the request is the one given, GET standing for the empty method; it has no
  part in the body, the headers or the client.
\<close>

theorem sendRequest_request:
  assumes "snd (sendRequest env targetURL m) = Some (client, req)"
  shows "gzip_write env payload = Inr (req_body req)
         \<and> payload = ''This is a stress test payload''
         \<and> req_method req = (if m = [] then ''GET'' else m)
         \<and> dom (req_header req) = {''Content-Encoding'', ''Content-Type''}
         \<and> req_header req ''Content-Encoding'' = Some ''gzip''
         \<and> req_header req ''Content-Type'' = Some ''application/json''
         \<and> client = (if scheme targetURL = ''https'' then HTTP3_RoundTripper
                      else if scheme targetURL = ''h2'' then HTTP2_InsecureSkipVerify
                      else DefaultClient)"
proof -
  obtain body where g: "gzip_write env payload = Inr body"
    using assms by (cases "gzip_write env payload") (auto simp: sendRequest_def)
  have n: "new_request_err env (request_method m) (url_string targetURL) = None"
    using assms g
    by (cases "new_request_err env (request_method m) (url_string targetURL)")
       (auto simp: sendRequest_def)
  have "(client, req) =
      (select_client (scheme targetURL),
       \<lparr>req_method = request_method m, req_url = url_string targetURL, req_body = body,
        req_header = [''Content-Encoding'' \<mapsto> ''gzip'', ''Content-Type'' \<mapsto> ''application/json'']\<rparr>)"
    using assms g n
    by (auto simp: sendRequest_def Let_def split: sum.splits option.splits)
  then show ?thesis using g by (auto simp: payload_def select_client_def request_method_def)
qed

text \<open>
  The empty method on an \<open>http\<close> URL (sent as a GET by the default client, answered 200)
  and a POST on an \<open>h2\<close> URL (handed to the HTTP/2 transport, which refuses it).
\<close>

theorem sendRequest_request_witness:
  "sendRequest h2_env \<lparr>scheme = ''http'', url_string = ''http://example.org/''\<rparr> []
     = (Inr 200,
        Some (DefaultClient,
              \<lparr>req_method = ''GET'', req_url = ''http://example.org/'',
               req_body = ''gz:This is a stress test payload'',
               req_header = [''Content-Encoding'' \<mapsto> ''gzip'',
                             ''Content-Type'' \<mapsto> ''application/json'']\<rparr>))
   \<and> sendRequest h2_env \<lparr>scheme = ''h2'', url_string = ''h2://example.org/''\<rparr> ''POST''
     = (Inl (RequestFailed ''http2: unsupported scheme''),
        Some (HTTP2_InsecureSkipVerify,
              \<lparr>req_method = ''POST'', req_url = ''h2://example.org/'',
               req_body = ''gz:This is a stress test payload'',
               req_header = [''Content-Encoding'' \<mapsto> ''gzip'',
                             ''Content-Type'' \<mapsto> ''application/json'']\<rparr>))
   \<and> dom [''Content-Encoding'' \<mapsto> ''gzip'', ''Content-Type'' \<mapsto> ''application/json'']
       = {''Content-Encoding'', ''Content-Type''}"
proof -
  let ?hd = "[''Content-Encoding'' \<mapsto> ''gzip'', ''Content-Type'' \<mapsto> ''application/json'']"
  let ?u1 = "\<lparr>scheme = ''http'', url_string = ''http://example.org/''\<rparr>"
  let ?r1 = "\<lparr>req_method = ''GET'', req_url = ''http://example.org/'',
               req_body = ''gz:This is a stress test payload'', req_header = ?hd\<rparr>"
  let ?u2 = "\<lparr>scheme = ''h2'', url_string = ''h2://example.org/''\<rparr>"
  let ?r2 = "\<lparr>req_method = ''POST'', req_url = ''h2://example.org/'',
               req_body = ''gz:This is a stress test payload'', req_header = ?hd\<rparr>"
  have s1: "snd (sendRequest h2_env ?u1 []) = Some (DefaultClient, ?r1)"
    by (simp add: sendRequest_def h2_env_def echo_env_def payload_def select_client_def
                  request_method_def)
  have f1: "fst (sendRequest h2_env ?u1 []) = Inr 200"
    by (simp add: sendRequest_def h2_env_def echo_env_def payload_def select_client_def
                  request_method_def)
  have s2: "snd (sendRequest h2_env ?u2 ''POST'') = Some (HTTP2_InsecureSkipVerify, ?r2)"
    by (simp add: sendRequest_def h2_env_def echo_env_def payload_def select_client_def
                  request_method_def)
  have f2: "fst (sendRequest h2_env ?u2 ''POST'') = Inl (RequestFailed ''http2: unsupported scheme'')"
    by (simp add: sendRequest_def h2_env_def echo_env_def payload_def select_client_def
                  request_method_def)
  have m1: "req_method ?r1 = (if ([]::string) = [] then ''GET'' else [])"
    using sendRequest_request [OF s1] by blast
  have d: "dom (req_header ?r2) = {''Content-Encoding'', ''Content-Type''}"
    using sendRequest_request [OF s2] by blast
  have e1: "sendRequest h2_env ?u1 [] = (Inr 200, Some (DefaultClient, ?r1))"
    using s1 f1 by (simp add: prod_eq_iff)
  have e2: "sendRequest h2_env ?u2 ''POST''
      = (Inl (RequestFailed ''http2: unsupported scheme''), Some (HTTP2_InsecureSkipVerify, ?r2))"
    using s2 f2 by (simp add: prod_eq_iff)
  have d': "dom ?hd = {''Content-Encoding'', ''Content-Type''}" using d by simp
  show ?thesis using e1 e2 d' by blast
qed

end
